theory Spec2Isabelle
  imports Main "HOL-Library.Word" "HOL-Library.Sublist"
begin

section \<open>The FIFO queueing discipline of pkg/tcpip/link/qdisc/fifo\<close>

text \<open>
  The package keeps, for every shard, a lock-protected queue (\<open>queueDispatcher\<close>) and a
  goroutine running \<open>dispatchLoop\<close>; producers call \<open>WritePacket\<close>, and \<open>Close\<close> shuts all
  loops down. The embedding is an interleaving semantics: the state is the memory shared
  by all goroutines together with the program point and the local variables of each
  goroutine, and one step is one atomic action of one goroutine. The atomic actions are
  exactly the pieces of the source that run without another goroutine being able to
  observe an intermediate state of the shard: an atomic load or store of \<open>closed\<close>, a
  section between \<open>qd.mu.Lock()\<close> and \<open>qd.mu.Unlock()\<close>, an \<open>Assert\<close> of a waker, a return of
  \<open>Fetch\<close>, and the unlocked call of \<open>WritePackets\<close> followed by the release of the batch
  (which touches goroutine-local data and the reference counters only).
\<close>

subsection \<open>Constants and external types\<close>

definition BatchSize :: int where
  "BatchSize = 32"

definition qDiscClosed :: "32 word" where
  "qDiscClosed = 1"

text \<open>
  Modelled from the spec: the type \<open>stack.PacketBuffer\<close> is declared outside this package.
  A packet is a pointer; \<open>ident\<close> stands for its address. \<open>Hash\<close> is the pre-computed hash
  the packet carries, an unsigned 32-bit value; the value 0 means that no hash is set.
\<close>

record PacketBuffer =
  ident :: nat
  Hash :: "32 word"

text \<open>
  Modelled from the spec: the reference counter of a packet (\<open>IncRef\<close> / \<open>DecRef\<close> of
  package stack). The counters of all packets form one map; only the number of references
  is modelled, not the release of the storage when it reaches zero.
\<close>

type_synonym refcounts = "PacketBuffer \<Rightarrow> int"

definition IncRef :: "PacketBuffer \<Rightarrow> refcounts \<Rightarrow> refcounts" where
  "IncRef p rc = rc(p := rc p + 1)"

definition DecRef :: "PacketBuffer \<Rightarrow> refcounts \<Rightarrow> refcounts" where
  "DecRef p rc = rc(p := rc p - 1)"

text \<open>
  Modelled from the spec: \<open>PacketBufferList.DecRef\<close> releases one reference of every packet
  stored in the list, front to back.
\<close>

fun List_DecRef :: "PacketBuffer list \<Rightarrow> refcounts \<Rightarrow> refcounts" where
  "List_DecRef [] rc = rc"
| "List_DecRef (p # ps) rc = List_DecRef ps (DecRef p rc)"

datatype Error = ErrClosedForSend | ErrNoBufferSpace

text \<open>
  The wakers a \<open>Fetch\<close> can return, seen from one dispatch loop: the two wakers of its own
  \<open>queueDispatcher\<close>, or any other pointer.
\<close>

datatype waker = NewPacketWaker | CloseWaker | UnknownWaker nat

subsection \<open>The shard\<close>

text \<open>
  \<open>queueDispatcher\<close>: \<open>queue\<close> and \<open>used\<close> are the fields guarded by \<open>mu\<close>; a waker is
  represented by whether it is asserted. The field \<open>lower\<close> is the external link writer; the
  calls made to it are recorded in the trace of the system.

  \<open>limit\<close> and \<open>used\<close> are Go \<open>int\<close>s. \<open>used\<close> is only incremented below \<open>limit\<close> and only
  decremented when a packet leaves the queue, so it stays between 0 and \<open>limit\<close> (theorem
  \<open>capacity_invariant\<close>) and no operation on it wraps around: HOL's \<open>int\<close> models it.

  \<open>stack.PacketBufferList\<close> is a list of packet pointers with \<open>PushBack\<close>, \<open>Front\<close>,
  \<open>Remove\<close>, \<open>Len\<close> and \<open>Reset\<close>; it is a HOL list here, the front being the head.
\<close>

record queueDispatcher =
  limit :: int
  queue :: "PacketBuffer list"
  used :: int
  newPacketWaker :: bool
  closeWaker :: bool

text \<open>Program points of \<open>dispatchLoop\<close>, and the goroutine's local variables.\<close>

datatype loop_pc =
    L_start      \<comment> \<open>line 90, before the wakers are added to the sleeper\<close>
  | L_fetch      \<comment> \<open>line 97, blocked in \<open>s.Fetch(true)\<close>\<close>
  | L_close      \<comment> \<open>line 100, the close waker was fetched, about to lock\<close>
  | L_lock       \<comment> \<open>line 112 or 124, about to lock and test the loop condition of line 113\<close>
  | L_write      \<comment> \<open>line 121, unlocked, about to call \<open>WritePackets\<close>\<close>
  | L_returned   \<comment> \<open>line 108, the loop has returned\<close>
  | L_panic      \<comment> \<open>line 110\<close>

record loop =
  pc :: loop_pc
  s_wakers :: "waker list"
  batch :: "PacketBuffer list"

text \<open>Program points of a goroutine that calls \<open>WritePacket\<close> or \<open>Close\<close>.\<close>

datatype thread_pc =
    T_idle                   \<comment> \<open>not inside a call\<close>
  | T_enqueue PacketBuffer   \<comment> \<open>\<open>WritePacket\<close>, line 140: \<open>closed\<close> was read as open\<close>
  | T_wake nat               \<comment> \<open>\<open>WritePacket\<close>, line 152: enqueued on this shard, about to assert\<close>
  | T_close nat              \<comment> \<open>\<open>Close\<close>, line 159 with this value of \<open>i\<close>\<close>
  | T_wait                   \<comment> \<open>\<open>Close\<close>, line 161, blocked in \<open>d.wg.Wait()\<close>\<close>

text \<open>
  What the package does to its collaborators and returns to its callers, in the order it
  happens: the queue insertion of line 145, the call of line 121, the release of line 103,
  and the returns of \<open>WritePacket\<close> and \<open>Close\<close>.
\<close>

datatype action =
    PushBack nat PacketBuffer
  | WritePackets nat "PacketBuffer list"
  | Discard nat PacketBuffer
  | Returns nat "Error option"
  | CloseReturns nat

record system =
  dispatchers :: "queueDispatcher list"
  closed :: "32 word"
  loops :: "loop list"
  threads :: "nat \<Rightarrow> thread_pc"
  refs :: refcounts
  trace :: "action list"
  crashed :: bool

subsection \<open>New\<close>

text \<open>
  \<open>make([]queueDispatcher, n)\<close> panics for a negative \<open>n\<close>. Every dispatcher starts with the
  zero value of its fields apart from \<open>limit\<close>; one goroutine per dispatcher is started.
\<close>

definition New_dispatcher :: "int \<Rightarrow> queueDispatcher" where
  "New_dispatcher queueLen =
     \<lparr>limit = queueLen, queue = [], used = 0, newPacketWaker = False, closeWaker = False\<rparr>"

definition New_loop :: loop where
  "New_loop = \<lparr>pc = L_start, s_wakers = [], batch = []\<rparr>"

definition New :: "int \<Rightarrow> int \<Rightarrow> system option" where
  "New n queueLen =
     (if n < 0 then None
      else Some \<lparr>dispatchers = replicate (nat n) (New_dispatcher queueLen),
                 closed = 0,
                 loops = replicate (nat n) New_loop,
                 threads = (\<lambda>t. T_idle),
                 refs = (\<lambda>p. 0),
                 trace = [],
                 crashed = False\<rparr>)"

subsection \<open>WritePacket\<close>

text \<open>Go's \<open>%\<close> on \<open>int\<close> truncates towards zero; a zero divisor panics.\<close>

definition go_rem :: "int \<Rightarrow> int \<Rightarrow> int option" where
  "go_rem a b = (if b = 0 then None else Some (sgn a * (\<bar>a\<bar> mod \<bar>b\<bar>)))"

text \<open>
  Line 140: \<open>&d.dispatchers[int(pkt.Hash) % len(d.dispatchers)]\<close>. \<open>int\<close> has 64 bits, so the
  conversion of the unsigned 32-bit hash keeps its value. \<open>None\<close> is a run-time panic
  (division by zero or index out of range).
\<close>

definition dispatcher_index :: "PacketBuffer \<Rightarrow> nat \<Rightarrow> nat option" where
  "dispatcher_index pkt n =
     (case go_rem (uint (Hash pkt)) (int n) of
        None \<Rightarrow> None
      | Some i \<Rightarrow> if 0 \<le> i \<and> i < int n then Some (nat i) else None)"

text \<open>Lines 141 to 148, the section under \<open>qd.mu\<close>; the first component is \<open>haveSpace\<close>.\<close>

definition enqueue :: "PacketBuffer \<Rightarrow> queueDispatcher \<Rightarrow> refcounts
    \<Rightarrow> bool \<times> queueDispatcher \<times> refcounts" where
  "enqueue pkt qd rc =
     (let haveSpace = used qd < limit qd in
      if haveSpace
      then (haveSpace, qd\<lparr>queue := queue qd @ [pkt], used := used qd + 1\<rparr>, IncRef pkt rc)
      else (haveSpace, qd, rc))"

text \<open>Line 137, for the goroutine \<open>t\<close>.\<close>

definition WritePacket_load :: "nat \<Rightarrow> PacketBuffer \<Rightarrow> system \<Rightarrow> system" where
  "WritePacket_load t pkt s =
     (if closed s = qDiscClosed
      then s\<lparr>trace := trace s @ [Returns t (Some ErrClosedForSend)]\<rparr>
      else s\<lparr>threads := (threads s)(t := T_enqueue pkt)\<rparr>)"

text \<open>Lines 140 to 151.\<close>

definition WritePacket_locked :: "nat \<Rightarrow> PacketBuffer \<Rightarrow> system \<Rightarrow> system" where
  "WritePacket_locked t pkt s =
     (case dispatcher_index pkt (length (dispatchers s)) of
        None \<Rightarrow> s\<lparr>crashed := True\<rparr>
      | Some i \<Rightarrow>
          (case enqueue pkt (dispatchers s ! i) (refs s) of
             (haveSpace, qd, rc) \<Rightarrow>
               let s' = s\<lparr>dispatchers := (dispatchers s)[i := qd], refs := rc\<rparr> in
               if \<not> haveSpace
               then s'\<lparr>threads := (threads s)(t := T_idle),
                       trace := trace s @ [Returns t (Some ErrNoBufferSpace)]\<rparr>
               else s'\<lparr>threads := (threads s)(t := T_wake i),
                       trace := trace s @ [PushBack i pkt]\<rparr>))"

text \<open>Lines 152 and 153.\<close>

definition WritePacket_wake :: "nat \<Rightarrow> nat \<Rightarrow> system \<Rightarrow> system" where
  "WritePacket_wake t i s =
     s\<lparr>dispatchers := (dispatchers s)[i := (dispatchers s ! i)\<lparr>newPacketWaker := True\<rparr>],
       threads := (threads s)(t := T_idle),
       trace := trace s @ [Returns t None]\<rparr>"

subsection \<open>Close\<close>

text \<open>Line 157.\<close>

definition Close_store :: "nat \<Rightarrow> system \<Rightarrow> system" where
  "Close_store t s = s\<lparr>closed := qDiscClosed, threads := (threads s)(t := T_close 0)\<rparr>"

text \<open>One round of the loop of lines 158 to 160.\<close>

definition Close_assert :: "nat \<Rightarrow> nat \<Rightarrow> system \<Rightarrow> system" where
  "Close_assert t i s =
     (if i < length (dispatchers s)
      then s\<lparr>dispatchers := (dispatchers s)[i := (dispatchers s ! i)\<lparr>closeWaker := True\<rparr>],
             threads := (threads s)(t := T_close (i + 1))\<rparr>
      else s\<lparr>threads := (threads s)(t := T_wait)\<rparr>)"

text \<open>
  Line 161: \<open>d.wg.Wait()\<close> returns once every loop has run its deferred \<open>d.wg.Done()\<close>.
\<close>

definition wg_zero :: "system \<Rightarrow> bool" where
  "wg_zero s = list_all (\<lambda>l. pc l = L_returned) (loops s)"

definition Close_return :: "nat \<Rightarrow> system \<Rightarrow> system" where
  "Close_return t s =
     s\<lparr>threads := (threads s)(t := T_idle), trace := trace s @ [CloseReturns t]\<rparr>"

subsection \<open>dispatchLoop\<close>

text \<open>
  Modelled from the spec: \<open>Sleeper.AddWaker\<close> of package sleep adds a waker to the wake
  sources of the sleeper; a sleeper is represented by the list of the wakers added to it.
\<close>

definition AddWaker :: "waker \<Rightarrow> waker list \<Rightarrow> waker list" where
  "AddWaker w ws = ws @ [w]"

text \<open>Lines 90 to 95: a fresh sleeper with the two wakers of the shard, and an empty batch.\<close>

definition dispatchLoop_start :: "loop \<Rightarrow> loop" where
  "dispatchLoop_start l =
     l\<lparr>s_wakers := AddWaker CloseWaker (AddWaker NewPacketWaker []),
       batch := [],
       pc := L_fetch\<rparr>"

text \<open>
  Modelled from the spec: \<open>Sleeper.Fetch\<close> of package sleep. With \<open>block = true\<close> it waits
  until one of the wakers added to the sleeper is asserted, clears that assertion and
  returns the waker; which one it returns when several are asserted is not determined.
  Nothing is known about a waker that is not a field of this dispatcher, so it counts as
  possibly asserted.
\<close>

fun asserted :: "queueDispatcher \<Rightarrow> waker \<Rightarrow> bool" where
  "asserted qd NewPacketWaker = newPacketWaker qd"
| "asserted qd CloseWaker = closeWaker qd"
| "asserted qd (UnknownWaker k) = True"

definition Fetch_returns :: "loop \<Rightarrow> queueDispatcher \<Rightarrow> waker \<Rightarrow> bool" where
  "Fetch_returns l qd w = (w \<in> set (s_wakers l) \<and> asserted qd w)"

fun clear :: "waker \<Rightarrow> queueDispatcher \<Rightarrow> queueDispatcher" where
  "clear NewPacketWaker qd = qd\<lparr>newPacketWaker := False\<rparr>"
| "clear CloseWaker qd = qd\<lparr>closeWaker := False\<rparr>"
| "clear (UnknownWaker k) qd = qd"

text \<open>The switch of lines 97 to 111 on the waker that \<open>Fetch\<close> returned.\<close>

fun switch_waker :: "waker \<Rightarrow> loop_pc" where
  "switch_waker NewPacketWaker = L_lock"
| "switch_waker CloseWaker = L_close"
| "switch_waker (UnknownWaker k) = L_panic"

definition dispatchLoop_fetch :: "nat \<Rightarrow> waker \<Rightarrow> system \<Rightarrow> system" where
  "dispatchLoop_fetch i w s =
     (let p = switch_waker w in
      s\<lparr>dispatchers := (dispatchers s)[i := clear w (dispatchers s ! i)],
        loops := (loops s)[i := (loops s ! i)\<lparr>pc := p\<rparr>],
        crashed := (p = L_panic)\<rparr>)"

text \<open>
  Lines 113 to 120 and 126, entered with the lock held: the arguments are \<open>qd.queue\<close>,
  \<open>qd.used\<close> and \<open>batch\<close>. The loop leaves the locked section either at line 120 with a
  batch to write, or at line 126 when the queue has no front element.
\<close>

fun drain :: "PacketBuffer list \<Rightarrow> int \<Rightarrow> PacketBuffer list
    \<Rightarrow> loop_pc \<times> PacketBuffer list \<times> int \<times> PacketBuffer list" where
  "drain [] u b = (L_fetch, [], u, b)"
| "drain (pkt # q) u b =
     (let u' = u - 1; b' = b @ [pkt] in
      if int (length b') < BatchSize \<and> u' \<noteq> 0 then drain q u' b'
      else (L_write, q, u', b'))"

definition dispatchLoop_locked :: "nat \<Rightarrow> system \<Rightarrow> system" where
  "dispatchLoop_locked i s =
     (let qd = dispatchers s ! i; l = loops s ! i in
      case drain (queue qd) (used qd) (batch l) of
        (p, q, u, b) \<Rightarrow>
          s\<lparr>dispatchers := (dispatchers s)[i := qd\<lparr>queue := q, used := u\<rparr>],
            loops := (loops s)[i := l\<lparr>pc := p, batch := b\<rparr>]\<rparr>)"

text \<open>Lines 121 to 123: the transmitter's results are ignored.\<close>

definition dispatchLoop_write :: "nat \<Rightarrow> system \<Rightarrow> system" where
  "dispatchLoop_write i s =
     (let l = loops s ! i in
      s\<lparr>trace := trace s @ [WritePackets i (batch l)],
        refs := List_DecRef (batch l) (refs s),
        loops := (loops s)[i := l\<lparr>pc := L_lock, batch := []\<rparr>]\<rparr>)"

text \<open>
  Lines 101 to 105: the arguments are the shard's index, \<open>qd.queue\<close>, \<open>qd.used\<close>, the
  reference counters and the trace.
\<close>

fun discard :: "nat \<Rightarrow> PacketBuffer list \<Rightarrow> int \<Rightarrow> refcounts \<Rightarrow> action list
    \<Rightarrow> PacketBuffer list \<times> int \<times> refcounts \<times> action list" where
  "discard i [] u rc tr = ([], u, rc, tr)"
| "discard i (p # q) u rc tr = discard i q (u - 1) (DecRef p rc) (tr @ [Discard i p])"

text \<open>Lines 100 to 108.\<close>

definition dispatchLoop_close :: "nat \<Rightarrow> system \<Rightarrow> system" where
  "dispatchLoop_close i s =
     (let qd = dispatchers s ! i; l = loops s ! i in
      case discard i (queue qd) (used qd) (refs s) (trace s) of
        (q, u, rc, tr) \<Rightarrow>
          s\<lparr>dispatchers := (dispatchers s)[i := qd\<lparr>queue := q, used := u\<rparr>],
            refs := List_DecRef q rc,
            trace := tr,
            loops := (loops s)[i := l\<lparr>pc := L_returned\<rparr>]\<rparr>)"

subsection \<open>Interleavings\<close>

text \<open>
  An event names the goroutine that takes the next atomic action: a goroutine \<open>t\<close> calls
  \<open>WritePacket\<close> or \<open>Close\<close>, continues the call it is in, or the loop of shard \<open>i\<close> has its
  \<open>Fetch\<close> return a waker or takes its next action. \<open>step\<close> is \<open>None\<close> when the goroutine cannot
  take that action in the state (it is blocked, not at that program point, or the process
  has died of a panic).
\<close>

datatype event =
    CallWritePacket nat PacketBuffer
  | CallClose nat
  | Resume nat
  | Fetch nat waker
  | Loop nat

fun step :: "event \<Rightarrow> system \<Rightarrow> system option" where
  "step (CallWritePacket t pkt) s =
     (if crashed s \<or> threads s t \<noteq> T_idle then None else Some (WritePacket_load t pkt s))"
| "step (CallClose t) s =
     (if crashed s \<or> threads s t \<noteq> T_idle then None else Some (Close_store t s))"
| "step (Resume t) s =
     (if crashed s then None
      else case threads s t of
        T_idle \<Rightarrow> None
      | T_enqueue pkt \<Rightarrow> Some (WritePacket_locked t pkt s)
      | T_wake i \<Rightarrow> Some (WritePacket_wake t i s)
      | T_close i \<Rightarrow> Some (Close_assert t i s)
      | T_wait \<Rightarrow> if wg_zero s then Some (Close_return t s) else None)"
| "step (Fetch i w) s =
     (if crashed s \<or> \<not> i < length (loops s) then None
      else if pc (loops s ! i) = L_fetch \<and> Fetch_returns (loops s ! i) (dispatchers s ! i) w
      then Some (dispatchLoop_fetch i w s) else None)"
| "step (Loop i) s =
     (if crashed s \<or> \<not> i < length (loops s) then None
      else case pc (loops s ! i) of
        L_start \<Rightarrow> Some (s\<lparr>loops := (loops s)[i := dispatchLoop_start (loops s ! i)]\<rparr>)
      | L_lock \<Rightarrow> Some (dispatchLoop_locked i s)
      | L_write \<Rightarrow> Some (dispatchLoop_write i s)
      | L_close \<Rightarrow> Some (dispatchLoop_close i s)
      | _ \<Rightarrow> None)"

text \<open>An event that cannot happen in the state it meets leaves the state as it is.\<close>

definition fire :: "event \<Rightarrow> system \<Rightarrow> system" where
  "fire e s = (case step e s of None \<Rightarrow> s | Some s' \<Rightarrow> s')"

fun exec :: "event list \<Rightarrow> system \<Rightarrow> system" where
  "exec [] s = s"
| "exec (e # es) s = exec es (fire e s)"

subsection \<open>Observations on the trace and the state\<close>

text \<open>
  For a shard \<open>i\<close>: the packets inserted into its queue, the packets its loop handed to
  \<open>WritePackets\<close>, and the packets its loop released on shutdown, each in the order of the
  trace.
\<close>

fun pushed_of :: "nat \<Rightarrow> action \<Rightarrow> PacketBuffer list" where
  "pushed_of i (PushBack j p) = (if i = j then [p] else [])"
| "pushed_of i a = []"

fun written_of :: "nat \<Rightarrow> action \<Rightarrow> PacketBuffer list" where
  "written_of i (WritePackets j b) = (if i = j then b else [])"
| "written_of i a = []"

fun discarded_of :: "nat \<Rightarrow> action \<Rightarrow> PacketBuffer list" where
  "discarded_of i (Discard j p) = (if i = j then [p] else [])"
| "discarded_of i a = []"

definition pushed :: "nat \<Rightarrow> action list \<Rightarrow> PacketBuffer list" where
  "pushed i tr = concat (map (pushed_of i) tr)"

definition transmitted :: "nat \<Rightarrow> action list \<Rightarrow> PacketBuffer list" where
  "transmitted i tr = concat (map (written_of i) tr)"

definition discarded :: "nat \<Rightarrow> action list \<Rightarrow> PacketBuffer list" where
  "discarded i tr = concat (map (discarded_of i) tr)"

text \<open>A call of \<open>WritePackets\<close> in the trace passes between 1 and \<open>BatchSize\<close> packets.\<close>

fun batch_ok :: "action \<Rightarrow> bool" where
  "batch_ok (WritePackets i b) = (b \<noteq> [] \<and> int (length b) \<le> BatchSize)"
| "batch_ok a = True"

text \<open>
  What holds of shard \<open>i\<close> whenever no goroutine is inside a locked section: the counter
  agrees with the queue and stays within the capacity (a negative \<open>limit\<close> acts as capacity
  0); the batch is empty unless the loop is about to write it; and the packets inserted so
  far are, in order, those written, those in the batch, those released on shutdown and
  those still queued.
\<close>

definition shard_ok :: "queueDispatcher \<Rightarrow> loop \<Rightarrow> PacketBuffer list \<Rightarrow> PacketBuffer list
    \<Rightarrow> PacketBuffer list \<Rightarrow> bool" where
  "shard_ok qd l ps ws ds =
     (used qd = int (length (queue qd)) \<and> used qd \<le> max 0 (limit qd) \<and>
      (if pc l = L_write then batch l \<noteq> [] \<and> int (length (batch l)) \<le> BatchSize
       else batch l = []) \<and>
      ps = ws @ batch l @ ds @ queue qd \<and>
      (ds = [] \<or> pc l = L_returned))"

definition shard_inv :: "system \<Rightarrow> nat \<Rightarrow> bool" where
  "shard_inv s i =
     shard_ok (dispatchers s ! i) (loops s ! i)
       (pushed i (trace s)) (transmitted i (trace s)) (discarded i (trace s))"

definition inv :: "system \<Rightarrow> bool" where
  "inv s = (length (loops s) = length (dispatchers s) \<and>
            list_all batch_ok (trace s) \<and>
            (\<forall>i < length (dispatchers s). shard_inv s i))"

text \<open>
  What holds of the sleeper of every loop: it knows no waker before the loop has started
  and exactly the two wakers of the shard afterwards, and the loop has not panicked.
\<close>

definition sleeper_ok :: "loop \<Rightarrow> bool" where
  "sleeper_ok l =
     (pc l \<noteq> L_panic \<and>
      s_wakers l = (if pc l = L_start then [] else [NewPacketWaker, CloseWaker]))"

text \<open>The goroutine is between line 137 and the locked section of \<open>WritePacket\<close>.\<close>

fun entering :: "thread_pc \<Rightarrow> bool" where
  "entering (T_enqueue pkt) = True"
| "entering c = False"

definition sleepers_ok :: "system \<Rightarrow> bool" where
  "sleepers_ok s = (\<forall>i < length (loops s). sleeper_ok (loops s ! i))"

text \<open>The loop of shard \<open>i\<close> has observed the shutdown: it is at line 100 or has returned.\<close>

definition shutting :: "system \<Rightarrow> nat \<Rightarrow> bool" where
  "shutting s i =
     (i < length (loops s) \<and> (pc (loops s ! i) = L_close \<or> pc (loops s ! i) = L_returned))"

text \<open>
  Every loop has returned, the discipline is closed, and no goroutine is between the load
  of line 137 and the locked section.
\<close>

definition all_done :: "system \<Rightarrow> bool" where
  "all_done s = (wg_zero s \<and> closed s = qDiscClosed \<and> (\<forall>t. \<not> entering (threads s t)))"

subsection \<open>Example runs\<close>

text \<open>
  \<open>exec\<close> skips an event that cannot happen; \<open>enabled_run\<close> tells that every event of a
  run can happen when its turn comes, so that the run is an execution of the program.
\<close>

fun enabled_run :: "event list \<Rightarrow> system \<Rightarrow> bool" where
  "enabled_run [] s = True"
| "enabled_run (e # es) s = (case step e s of None \<Rightarrow> False | Some s' \<Rightarrow> enabled_run es s')"

text \<open>
  One shard of capacity 4: the loop starts, one goroutine submits two packets without a
  hash, the loop wakes up, drains the queue and writes one batch.
\<close>

definition two_packets :: "event list" where
  "two_packets =
     [Loop 0,
      CallWritePacket 0 \<lparr>ident = 1, Hash = 0\<rparr>, Resume 0, Resume 0,
      CallWritePacket 0 \<lparr>ident = 2, Hash = 0\<rparr>, Resume 0, Resume 0,
      Fetch 0 NewPacketWaker, Loop 0, Loop 0, Loop 0]"

text \<open>
  Two shards of capacity 4: a goroutine submits three packets whose hashes select shard 0,
  shard 1 and shard 0; the loop of shard 1 runs first, then the loop of shard 0.
\<close>

definition two_shards :: "event list" where
  "two_shards =
     [Loop 0, Loop 1,
      CallWritePacket 0 \<lparr>ident = 1, Hash = 0\<rparr>, Resume 0, Resume 0,
      CallWritePacket 0 \<lparr>ident = 2, Hash = 1\<rparr>, Resume 0, Resume 0,
      CallWritePacket 0 \<lparr>ident = 3, Hash = 2\<rparr>, Resume 0, Resume 0,
      Fetch 1 NewPacketWaker, Loop 1, Loop 1, Loop 1,
      Fetch 0 NewPacketWaker, Loop 0, Loop 0, Loop 0]"

text \<open>
  One shard of capacity 64: 33 packets are submitted before the loop wakes up; the loop
  writes a batch of 32 packets and then a batch of one.
\<close>

definition burst :: "event list" where
  "burst =
     Loop 0 #
     concat (map (\<lambda>k. [CallWritePacket 0 \<lparr>ident = k, Hash = 0\<rparr>, Resume 0, Resume 0]) [0..<33]) @
     [Fetch 0 NewPacketWaker, Loop 0, Loop 0, Loop 0, Loop 0]"

text \<open>
  One shard of capacity 1 that holds one packet: a further packet finds it full.
\<close>

definition full_shard :: system where
  "full_shard =
     exec [CallWritePacket 0 \<lparr>ident = 1, Hash = 0\<rparr>, Resume 0, Resume 0] (the (New 1 1))"

text \<open>
  One shard of capacity 4 with three packets queued by three goroutines, none of which has
  asserted the waker yet, when \<open>Close\<close> is called and the loop fetches the close waker.
\<close>

definition close_with_backlog :: "event list" where
  "close_with_backlog =
     [Loop 0,
      CallWritePacket 0 \<lparr>ident = 1, Hash = 0\<rparr>, Resume 0,
      CallWritePacket 2 \<lparr>ident = 2, Hash = 0\<rparr>, Resume 2,
      CallWritePacket 3 \<lparr>ident = 3, Hash = 0\<rparr>, Resume 3,
      CallClose 1, Resume 1,
      Fetch 0 CloseWaker]"

text \<open>
  A state in which the sleeper of the loop knows a waker that is not one of the two of its
  shard. No run from \<open>New\<close> reaches it.
\<close>

definition unknown_registered :: system where
  "unknown_registered =
     (the (New 1 4))\<lparr>loops := [\<lparr>pc = L_fetch, s_wakers = [UnknownWaker 7], batch = []\<rparr>]\<rparr>"

text \<open>
  One shard of capacity 4. Goroutine 0 calls \<open>WritePacket\<close> and reads \<open>closed\<close> as open;
  before it locks the shard, goroutine 1 calls \<open>Close\<close> and asserts the close waker, and the
  loop fetches it, finds the queue empty and returns; then goroutine 0 enters the locked
  section and finishes its call, and \<open>Close\<close> returns.
\<close>

definition close_race :: "event list" where
  "close_race =
     [Loop 0,
      CallWritePacket 0 \<lparr>ident = 1, Hash = 0\<rparr>,
      CallClose 1, Resume 1, Resume 1,
      Fetch 0 CloseWaker, Loop 0,
      Resume 0, Resume 0,
      Resume 1]"

section \<open>Properties of the steps\<close>

subsection \<open>Traces, the drain loops, and the invariant of a shard\<close>

lemma pushed_snoc [simp]: "pushed i (tr @ [a]) = pushed i tr @ pushed_of i a"
  by (simp add: pushed_def)
lemma transmitted_snoc [simp]: "transmitted i (tr @ [a]) = transmitted i tr @ written_of i a"
  by (simp add: transmitted_def)
lemma discarded_snoc [simp]: "discarded i (tr @ [a]) = discarded i tr @ discarded_of i a"
  by (simp add: discarded_def)
lemma pushed_Nil [simp]: "pushed i [] = []" by (simp add: pushed_def)
lemma transmitted_Nil [simp]: "transmitted i [] = []" by (simp add: transmitted_def)
lemma discarded_Nil [simp]: "discarded i [] = []" by (simp add: discarded_def)

lemma pushed_Discards [simp]: "pushed i (tr @ map (Discard j) q) = pushed i tr"
  by (induction q rule: rev_induct) (simp_all add: pushed_def)
lemma transmitted_Discards [simp]: "transmitted i (tr @ map (Discard j) q) = transmitted i tr"
  by (induction q rule: rev_induct) (simp_all add: transmitted_def)
lemma discarded_Discards [simp]:
  "discarded i (tr @ map (Discard j) q) = discarded i tr @ (if i = j then q else [])"
  by (induction q rule: rev_induct) (simp_all add: discarded_def)
lemma batch_ok_Discards [simp]: "list_all batch_ok (map (Discard j) q)"
  by (induction q) simp_all

lemma drain_result:
  "drain q u b = (p, q', u', b') \<Longrightarrow>
   \<exists>taken. q = taken @ q' \<and> b' = b @ taken \<and> u' = u - int (length taken) \<and>
     (p = L_write \<and> taken \<noteq> [] \<and> (int (length b) < BatchSize \<longrightarrow> int (length b') \<le> BatchSize)
      \<or> p = L_fetch \<and> q' = [] \<and> (taken = [] \<or> u' \<noteq> 0))"
proof (induction q arbitrary: u b)
  case Nil
  then show ?case by auto
next
  case (Cons pkt q)
  show ?case
  proof (cases "int (length (b @ [pkt])) < BatchSize \<and> u - 1 \<noteq> 0")
    case True
    with Cons.prems have "drain q (u - 1) (b @ [pkt]) = (p, q', u', b')" by (simp add: Let_def)
    from Cons.IH [OF this] obtain taken where
      t: "q = taken @ q'" "b' = (b @ [pkt]) @ taken" "u' = u - 1 - int (length taken)"
         "p = L_write \<and> taken \<noteq> [] \<and> (int (length (b @ [pkt])) < BatchSize \<longrightarrow> int (length b') \<le> BatchSize)
          \<or> p = L_fetch \<and> q' = [] \<and> (taken = [] \<or> u' \<noteq> 0)"
      by blast
    show ?thesis
      apply (rule exI [of _ "pkt # taken"])
      using t True by auto
  next
    case False
    with Cons.prems have "p = L_write" "q' = q" "u' = u - 1" "b' = b @ [pkt]"
      by (auto simp: Let_def)
    then show ?thesis 
      apply -
      apply (rule exI [of _ "[pkt]"])
      using False by (auto simp: BatchSize_def)
  qed
qed

lemma discard_result:
  "discard i q u rc tr = ([], u - int (length q), List_DecRef q rc, tr @ map (Discard i) q)"
  by (induction q arbitrary: u rc tr) auto

lemma List_DecRef_count: "List_DecRef q rc p = rc p - int (count_list q p)"
  by (induction q arbitrary: rc) (auto simp: DecRef_def)



lemma inv_length: "inv s \<Longrightarrow> length (loops s) = length (dispatchers s)"
  by (simp add: inv_def)

lemma inv_trace: "inv s \<Longrightarrow> list_all batch_ok (trace s)"
  by (simp add: inv_def)

lemma inv_shard: "inv s \<Longrightarrow> i < length (dispatchers s) \<Longrightarrow> shard_inv s i"
  by (simp add: inv_def)

lemma inv_step:
  assumes "inv s"
    and "length (loops s') = length (loops s)"
    and "length (dispatchers s') = length (dispatchers s)"
    and "list_all batch_ok (trace s')"
    and "\<And>i. i < length (dispatchers s) \<Longrightarrow> shard_inv s i \<Longrightarrow> shard_inv s' i"
  shows "inv s'"
  using assms by (simp add: inv_def)

lemma WritePacket_locked_Some:
  "dispatcher_index pkt (length (dispatchers s)) = Some i \<Longrightarrow>
   WritePacket_locked t pkt s =
     (if used (dispatchers s ! i) < limit (dispatchers s ! i)
      then s\<lparr>dispatchers := (dispatchers s)[i := (dispatchers s ! i)
                 \<lparr>queue := queue (dispatchers s ! i) @ [pkt], used := used (dispatchers s ! i) + 1\<rparr>],
             refs := IncRef pkt (refs s),
             threads := (threads s)(t := T_wake i),
             trace := trace s @ [PushBack i pkt]\<rparr>
      else s\<lparr>threads := (threads s)(t := T_idle),
             trace := trace s @ [Returns t (Some ErrNoBufferSpace)]\<rparr>)"
  by (simp add: WritePacket_locked_def enqueue_def Let_def)

lemma dispatchLoop_close_eq:
  "dispatchLoop_close i s =
     s\<lparr>dispatchers := (dispatchers s)[i := (dispatchers s ! i)
          \<lparr>queue := [], used := used (dispatchers s ! i) - int (length (queue (dispatchers s ! i)))\<rparr>],
       refs := List_DecRef (queue (dispatchers s ! i)) (refs s),
       trace := trace s @ map (Discard i) (queue (dispatchers s ! i)),
       loops := (loops s)[i := (loops s ! i)\<lparr>pc := L_returned\<rparr>]\<rparr>"
  by (simp add: dispatchLoop_close_def Let_def discard_result)

lemma nth_list_update_if:
  "xs[i := x] ! j = (if i = j \<and> i < length xs then x else xs ! j)"
  by (cases "i < length xs") (auto simp: nth_list_update list_update_beyond)

lemma inv_WritePacket_load:
  assumes "inv s"
  shows "inv (WritePacket_load t pkt s)"
  using assms
  by (rule inv_step) (simp_all add: WritePacket_load_def shard_inv_def inv_trace [OF assms])

lemma inv_WritePacket_wake:
  assumes "inv s"
  shows "inv (WritePacket_wake t i s)"
  using assms
  by (rule inv_step)
     (auto simp: WritePacket_wake_def shard_inv_def shard_ok_def nth_list_update_if
        inv_trace [OF assms])

lemma inv_Close_store:
  assumes "inv s"
  shows "inv (Close_store t s)"
  using assms
  by (rule inv_step) (simp_all add: Close_store_def shard_inv_def inv_trace [OF assms])

lemma inv_Close_assert:
  assumes "inv s"
  shows "inv (Close_assert t i s)"
  using assms
  by (rule inv_step)
     (auto simp: Close_assert_def shard_inv_def shard_ok_def nth_list_update_if
        inv_trace [OF assms])

lemma inv_Close_return:
  assumes "inv s"
  shows "inv (Close_return t s)"
  using assms
  by (rule inv_step) (simp_all add: Close_return_def shard_inv_def inv_trace [OF assms])

lemma inv_start:
  assumes "inv s" and "pc (loops s ! i) = L_start"
  shows "inv (s\<lparr>loops := (loops s)[i := dispatchLoop_start (loops s ! i)]\<rparr>)"
  using assms(1)
  by (rule inv_step)
     (use assms(2) in \<open>auto simp: dispatchLoop_start_def AddWaker_def shard_inv_def shard_ok_def
        nth_list_update_if inv_trace [OF assms(1)]\<close>)

lemma inv_WritePacket_locked:
  assumes "inv s"
  shows "inv (WritePacket_locked t pkt s)"
proof (cases "dispatcher_index pkt (length (dispatchers s))")
  case None
  with assms show ?thesis
    by (simp add: inv_def WritePacket_locked_def shard_inv_def)
next
  case (Some j)
  show ?thesis
    using assms
    by (rule inv_step)
       (auto simp: WritePacket_locked_Some [OF Some] inv_trace [OF assms]
          shard_inv_def shard_ok_def nth_list_update_if)
qed

lemma inv_fetch:
  assumes "inv s" "i < length (loops s)" "pc (loops s ! i) = L_fetch"
    "Fetch_returns (loops s ! i) (dispatchers s ! i) w"
  shows "inv (dispatchLoop_fetch i w s)"
proof -
  from assms have ii: "i < length (dispatchers s)" by (simp add: inv_def)
  show ?thesis
    using assms(1)
  proof (rule inv_step)
    fix k assume "k < length (dispatchers s)" "shard_inv s k"
    then show "shard_inv (dispatchLoop_fetch i w s) k"
      using ii assms(2,3)
      by (cases w) (auto simp: dispatchLoop_fetch_def Let_def shard_inv_def shard_ok_def nth_list_update)
  qed (simp_all add: dispatchLoop_fetch_def Let_def inv_trace [OF assms(1)])
qed

lemma inv_write:
  assumes "inv s" "i < length (loops s)" "pc (loops s ! i) = L_write"
  shows "inv (dispatchLoop_write i s)"
proof -
  from assms have ii: "i < length (dispatchers s)" by (simp add: inv_def)
  show ?thesis
    using assms(1)
  proof (rule inv_step)
    show "list_all batch_ok (trace (dispatchLoop_write i s))"
      using inv_trace [OF assms(1)] inv_shard [OF assms(1) ii] assms(3)
      by (simp add: dispatchLoop_write_def Let_def shard_inv_def shard_ok_def)
    fix k assume "k < length (dispatchers s)" "shard_inv s k"
    then show "shard_inv (dispatchLoop_write i s) k"
      using ii assms(2,3)
      by (auto simp: dispatchLoop_write_def Let_def shard_inv_def shard_ok_def nth_list_update)
  qed (simp_all add: dispatchLoop_write_def Let_def)
qed

lemma inv_close:
  assumes "inv s" "i < length (loops s)" "pc (loops s ! i) = L_close"
  shows "inv (dispatchLoop_close i s)"
proof -
  from assms have ii: "i < length (dispatchers s)" by (simp add: inv_def)
  show ?thesis
    using assms(1)
  proof (rule inv_step)
    fix k assume "k < length (dispatchers s)" "shard_inv s k"
    then show "shard_inv (dispatchLoop_close i s) k"
      using ii assms(2,3)
      by (auto simp: dispatchLoop_close_eq shard_inv_def shard_ok_def nth_list_update)
  qed (simp_all add: dispatchLoop_close_eq inv_trace [OF assms(1)])
qed

lemma inv_locked:
  assumes "inv s" "i < length (loops s)" "pc (loops s ! i) = L_lock"
  shows "inv (dispatchLoop_locked i s)"
proof -
  from assms have ii: "i < length (dispatchers s)" by (simp add: inv_def)
  obtain p q u b where d: "drain (queue (dispatchers s ! i)) (used (dispatchers s ! i)) (batch (loops s ! i)) = (p, q, u, b)"
    by (metis prod_cases4)
  from inv_shard [OF assms(1) ii] assms(3) have b0: "batch (loops s ! i) = []"
    and u0: "used (dispatchers s ! i) = int (length (queue (dispatchers s ! i)))"
    by (auto simp: shard_inv_def shard_ok_def)
  from drain_result [OF d] obtain taken where
    t: "queue (dispatchers s ! i) = taken @ q" "b = taken" "u = int (length q)"
       "p = L_write \<and> taken \<noteq> [] \<and> int (length b) \<le> BatchSize \<or> p = L_fetch \<and> q = [] \<and> taken = []"
    using b0 u0 by (auto simp: BatchSize_def)
  have eq: "dispatchLoop_locked i s =
      s\<lparr>dispatchers := (dispatchers s)[i := (dispatchers s ! i)\<lparr>queue := q, used := u\<rparr>],
        loops := (loops s)[i := (loops s ! i)\<lparr>pc := p, batch := b\<rparr>]\<rparr>"
    using d by (simp add: dispatchLoop_locked_def Let_def)
  show ?thesis
    using assms(1)
  proof (rule inv_step)
    fix k assume "k < length (dispatchers s)" "shard_inv s k"
    then show "shard_inv (dispatchLoop_locked i s) k"
      using ii assms(2,3) t b0
      by (auto simp: eq shard_inv_def shard_ok_def nth_list_update)
  qed (simp_all add: eq inv_trace [OF assms(1)])
qed

lemma inv_fire: "inv s \<Longrightarrow> inv (fire e s)"
proof (cases e)
  case (CallWritePacket t pkt)
  assume "inv s"
  with CallWritePacket show ?thesis by (simp add: fire_def inv_WritePacket_load)
next
  case (CallClose t)
  assume "inv s"
  with CallClose show ?thesis by (simp add: fire_def inv_Close_store)
next
  case (Resume t)
  assume "inv s"
  with Resume show ?thesis
    by (simp add: fire_def inv_WritePacket_locked inv_WritePacket_wake inv_Close_assert
        inv_Close_return split: thread_pc.splits)
next
  case (Fetch i w)
  assume "inv s"
  with Fetch show ?thesis by (simp add: fire_def inv_fetch)
next
  case (Loop i)
  assume "inv s"
  with Loop show ?thesis
    by (simp add: fire_def inv_start inv_locked inv_write inv_close split: loop_pc.splits)
qed

lemma inv_exec: "inv s \<Longrightarrow> inv (exec es s)"
  by (induction es arbitrary: s) (simp_all add: inv_fire)

lemma inv_New: "New n queueLen = Some s \<Longrightarrow> inv s"
  by (auto simp: New_def inv_def shard_inv_def shard_ok_def New_dispatcher_def New_loop_def split: if_splits)

subsection \<open>Case analysis of a step; what no step changes\<close>

lemma dispatchLoop_locked_cases:
  obtains p q u b where
    "drain (queue (dispatchers s ! i)) (used (dispatchers s ! i)) (batch (loops s ! i)) = (p, q, u, b)"
    "dispatchLoop_locked i s =
      s\<lparr>dispatchers := (dispatchers s)[i := (dispatchers s ! i)\<lparr>queue := q, used := u\<rparr>],
        loops := (loops s)[i := (loops s ! i)\<lparr>pc := p, batch := b\<rparr>]\<rparr>"
proof -
  obtain p q u b where d: "drain (queue (dispatchers s ! i)) (used (dispatchers s ! i)) (batch (loops s ! i)) = (p, q, u, b)"
    by (metis prod_cases4)
  then have "dispatchLoop_locked i s =
      s\<lparr>dispatchers := (dispatchers s)[i := (dispatchers s ! i)\<lparr>queue := q, used := u\<rparr>],
        loops := (loops s)[i := (loops s ! i)\<lparr>pc := p, batch := b\<rparr>]\<rparr>"
    by (simp add: dispatchLoop_locked_def Let_def)
  with d that show thesis by blast
qed

lemma step_cases:
  assumes "step e s = Some s'"
  obtains
    (load) t pkt where "e = CallWritePacket t pkt" "threads s t = T_idle" "s' = WritePacket_load t pkt s"
  | (store) t where "e = CallClose t" "threads s t = T_idle" "s' = Close_store t s"
  | (locked) t pkt where "e = Resume t" "threads s t = T_enqueue pkt" "s' = WritePacket_locked t pkt s"
  | (wake) t i where "e = Resume t" "threads s t = T_wake i" "s' = WritePacket_wake t i s"
  | (as) t i where "e = Resume t" "threads s t = T_close i" "s' = Close_assert t i s"
  | (wait) t where "e = Resume t" "threads s t = T_wait" "wg_zero s" "s' = Close_return t s"
  | (fetch) i w where "e = Fetch i w" "i < length (loops s)" "pc (loops s ! i) = L_fetch"
      "Fetch_returns (loops s ! i) (dispatchers s ! i) w" "s' = dispatchLoop_fetch i w s"
  | (st) i where "e = Loop i" "i < length (loops s)" "pc (loops s ! i) = L_start"
      "s' = s\<lparr>loops := (loops s)[i := dispatchLoop_start (loops s ! i)]\<rparr>"
  | (dr) i where "e = Loop i" "i < length (loops s)" "pc (loops s ! i) = L_lock"
      "s' = dispatchLoop_locked i s"
  | (wr) i where "e = Loop i" "i < length (loops s)" "pc (loops s ! i) = L_write"
      "s' = dispatchLoop_write i s"
  | (cl) i where "e = Loop i" "i < length (loops s)" "pc (loops s ! i) = L_close"
      "s' = dispatchLoop_close i s"
  using assms
  by (cases e) (auto split: if_splits thread_pc.splits loop_pc.splits)

lemma fire_cases:
  obtains (skip) "fire e s = s" | (step) "step e s = Some (fire e s)"
  by (cases "step e s") (auto simp: fire_def)

lemma length_step:
  "step e s = Some s' \<Longrightarrow>
   length (dispatchers s') = length (dispatchers s) \<and> length (loops s') = length (loops s)"
proof (erule step_cases)
  fix i assume "s' = dispatchLoop_locked i s"
  then show "length (dispatchers s') = length (dispatchers s) \<and> length (loops s') = length (loops s)"
    by (cases rule: dispatchLoop_locked_cases [of s i]) simp
next
  fix t pkt assume "s' = WritePacket_locked t pkt s"
  then show "length (dispatchers s') = length (dispatchers s) \<and> length (loops s') = length (loops s)"
    by (cases "dispatcher_index pkt (length (dispatchers s))")
       (simp_all add: WritePacket_locked_Some, simp add: WritePacket_locked_def)
qed (simp_all add: WritePacket_load_def Close_store_def WritePacket_wake_def Close_assert_def
       Close_return_def dispatchLoop_fetch_def Let_def dispatchLoop_write_def dispatchLoop_close_eq)

lemma length_fire:
  "length (dispatchers (fire e s)) = length (dispatchers s) \<and> length (loops (fire e s)) = length (loops s)"
  by (cases rule: fire_cases [of e s]) (simp_all add: length_step)

lemma length_exec:
  "length (dispatchers (exec es s)) = length (dispatchers s) \<and> length (loops (exec es s)) = length (loops s)"
  by (induction es arbitrary: s) (simp_all add: length_fire)

lemma limit_step:
  "step e s = Some s' \<Longrightarrow> limit (dispatchers s' ! i) = limit (dispatchers s ! i)"
proof (erule step_cases)
  fix j assume "s' = dispatchLoop_locked j s"
  then show "limit (dispatchers s' ! i) = limit (dispatchers s ! i)"
    by (cases rule: dispatchLoop_locked_cases [of s j]) (simp add: nth_list_update_if)
next
  fix t pkt assume "s' = WritePacket_locked t pkt s"
  then show "limit (dispatchers s' ! i) = limit (dispatchers s ! i)"
    by (cases "dispatcher_index pkt (length (dispatchers s))")
       (simp_all add: WritePacket_locked_Some nth_list_update_if, simp add: WritePacket_locked_def)
next
  fix j w assume "s' = dispatchLoop_fetch j w s"
  then show "limit (dispatchers s' ! i) = limit (dispatchers s ! i)"
    by (cases w) (simp_all add: dispatchLoop_fetch_def Let_def nth_list_update_if)
qed (simp_all add: WritePacket_load_def Close_store_def WritePacket_wake_def Close_assert_def
       Close_return_def dispatchLoop_write_def dispatchLoop_close_eq nth_list_update_if Let_def)

lemma limit_fire: "limit (dispatchers (fire e s) ! i) = limit (dispatchers s ! i)"
  by (cases rule: fire_cases [of e s]) (simp_all add: limit_step)

lemma limit_exec: "limit (dispatchers (exec es s) ! i) = limit (dispatchers s ! i)"
  by (induction es arbitrary: s) (simp_all add: limit_fire)

lemma closed_step: "step e s = Some s' \<Longrightarrow> closed s = qDiscClosed \<Longrightarrow> closed s' = qDiscClosed"
proof (erule step_cases)
  fix j assume "s' = dispatchLoop_locked j s" "closed s = qDiscClosed"
  then show "closed s' = qDiscClosed"
    by (cases rule: dispatchLoop_locked_cases [of s j]) simp
next
  fix t pkt assume "s' = WritePacket_locked t pkt s" "closed s = qDiscClosed"
  then show "closed s' = qDiscClosed"
    by (cases "dispatcher_index pkt (length (dispatchers s))")
       (simp_all add: WritePacket_locked_Some, simp add: WritePacket_locked_def)
qed (simp_all add: WritePacket_load_def Close_store_def WritePacket_wake_def Close_assert_def
       Close_return_def dispatchLoop_fetch_def dispatchLoop_write_def dispatchLoop_close_eq Let_def)

lemma closed_fire: "closed s = qDiscClosed \<Longrightarrow> closed (fire e s) = qDiscClosed"
  by (cases rule: fire_cases [of e s]) (simp_all add: closed_step)

lemma closed_exec: "closed s = qDiscClosed \<Longrightarrow> closed (exec es s) = qDiscClosed"
  by (induction es arbitrary: s) (simp_all add: closed_fire)


subsection \<open>The sleepers know their two wakers\<close>

lemma sleepers_step:
  assumes "step e s = Some s'" and "sleepers_ok s"
  shows "sleepers_ok s'"
  using assms(1)
proof (cases rule: step_cases)
  case (dr j)
  with assms(2) show ?thesis
    by (cases rule: dispatchLoop_locked_cases [of s j])
       (auto simp: sleepers_ok_def sleeper_ok_def nth_list_update_if dest: drain_result)
next
  case (locked t pkt)
  with assms(2) show ?thesis
    by (cases "dispatcher_index pkt (length (dispatchers s))")
       (simp_all add: WritePacket_locked_Some sleepers_ok_def, simp add: WritePacket_locked_def)
next
  case (fetch j w)
  from fetch(2,3) assms(2) have "s_wakers (loops s ! j) = [NewPacketWaker, CloseWaker]"
    by (auto simp: sleepers_ok_def sleeper_ok_def)
  with fetch(4) have "w = NewPacketWaker \<or> w = CloseWaker"
    by (auto simp: Fetch_returns_def)
  with fetch assms(2) show ?thesis
    by (auto simp: sleepers_ok_def sleeper_ok_def dispatchLoop_fetch_def Let_def nth_list_update_if)
qed (use assms(2) in \<open>auto simp: sleepers_ok_def sleeper_ok_def WritePacket_load_def Close_store_def
       WritePacket_wake_def Close_assert_def Close_return_def dispatchLoop_write_def
       dispatchLoop_close_eq dispatchLoop_start_def AddWaker_def nth_list_update_if Let_def\<close>)

lemma sleepers_fire: "sleepers_ok s \<Longrightarrow> sleepers_ok (fire e s)"
  by (cases rule: fire_cases [of e s]) (simp_all add: sleepers_step)

lemma sleepers_exec: "sleepers_ok s \<Longrightarrow> sleepers_ok (exec es s)"
  by (induction es arbitrary: s) (simp_all add: sleepers_fire)

lemma sleepers_New: "New n queueLen = Some s \<Longrightarrow> sleepers_ok s"
  by (auto simp: New_def sleepers_ok_def sleeper_ok_def New_loop_def split: if_splits)

subsection \<open>Nothing is written once the shutdown was observed\<close>

lemma shutting_step:
  assumes "step e s = Some s'" and "shutting s i"
  shows "shutting s' i \<and> transmitted i (trace s') = transmitted i (trace s)"
  using assms(1)
proof (cases rule: step_cases)
  case (dr j)
  with assms(2) show ?thesis
    by (cases rule: dispatchLoop_locked_cases [of s j])
       (auto simp: shutting_def nth_list_update_if)
next
  case (locked t pkt)
  with assms(2) show ?thesis
    by (cases "dispatcher_index pkt (length (dispatchers s))")
       (simp_all add: WritePacket_locked_Some shutting_def, simp add: WritePacket_locked_def)
qed (use assms(2) in \<open>auto simp: shutting_def WritePacket_load_def Close_store_def
       WritePacket_wake_def Close_assert_def Close_return_def dispatchLoop_write_def
       dispatchLoop_fetch_def dispatchLoop_close_eq dispatchLoop_start_def nth_list_update_if Let_def\<close>)

lemma shutting_fire:
  "shutting s i \<Longrightarrow> shutting (fire e s) i \<and> transmitted i (trace (fire e s)) = transmitted i (trace s)"
  by (cases rule: fire_cases [of e s]) (simp_all add: shutting_step)

lemma shutting_exec:
  "shutting s i \<Longrightarrow> shutting (exec es s) i \<and> transmitted i (trace (exec es s)) = transmitted i (trace s)"
  by (induction es arbitrary: s) (simp_all add: shutting_fire)

subsection \<open>No reference changes once all loops have returned\<close>

lemma all_done_step:
  assumes "step e s = Some s'" and "all_done s"
  shows "all_done s' \<and> refs s' = refs s"
  using assms(1)
proof (cases rule: step_cases)
  case (locked t pkt)
  from assms(2) have "\<not> entering (threads s t)"
    unfolding all_done_def by blast
  with locked(2) show ?thesis
    by simp
qed (use assms(2) in \<open>auto simp: all_done_def wg_zero_def list_all_length WritePacket_load_def
       Close_store_def Close_return_def WritePacket_wake_def Close_assert_def\<close>)

lemma all_done_fire: "all_done s \<Longrightarrow> all_done (fire e s) \<and> refs (fire e s) = refs s"
  by (cases rule: fire_cases [of e s]) (simp_all add: all_done_step)

lemma all_done_exec: "all_done s \<Longrightarrow> all_done (exec es s) \<and> refs (exec es s) = refs s"
  by (induction es arbitrary: s) (simp_all add: all_done_fire)

subsection \<open>The shard of a packet\<close>

lemma go_rem_nonneg: "0 \<le> a \<Longrightarrow> 0 < b \<Longrightarrow> go_rem a b = Some (a mod b)"
  by (cases "a = 0") (auto simp: go_rem_def sgn_if)

lemma dispatcher_index_mod:
  "1 \<le> n \<Longrightarrow> dispatcher_index pkt n = Some (unat (Hash pkt) mod n)"
proof -
  assume n: "1 \<le> n"
  have r: "go_rem (uint (Hash pkt)) (int n) = Some (uint (Hash pkt) mod int n)"
    using n by (intro go_rem_nonneg) auto
  have "uint (Hash pkt) mod int n = int (unat (Hash pkt) mod n)"
    by (simp add: zmod_int)
  with r n show ?thesis
    by (simp add: dispatcher_index_def)
qed

lemma threads_idle_upd: "threads s t = T_idle \<Longrightarrow> (threads s)(t := T_idle) = threads s"
  by (metis fun_upd_idem)

subsection \<open>Every batch written has between 1 and 32 packets\<close>

lemma batch_ok_trace:
  assumes "New n queueLen = Some s0" and "WritePackets i b \<in> set (trace (exec es s0))"
  shows "b \<noteq> [] \<and> int (length b) \<le> BatchSize"
proof -
  have "inv (exec es s0)"
    using assms(1) by (intro inv_exec inv_New)
  then have "list_all batch_ok (trace (exec es s0))"
    by (rule inv_trace)
  with assms(2) have "batch_ok (WritePackets i b)"
    unfolding list_all_iff by blast
  then show ?thesis by simp
qed

lemma batch_ok_pending:
  assumes "New n queueLen = Some s0" and "i < length (loops (exec es s0))"
    and "pc (loops (exec es s0) ! i) = L_write"
  shows "batch (loops (exec es s0) ! i) \<noteq> [] \<and> int (length (batch (loops (exec es s0) ! i))) \<le> BatchSize"
proof -
  have v: "inv (exec es s0)"
    using assms(1) by (intro inv_exec inv_New)
  with assms(2) have "i < length (dispatchers (exec es s0))"
    by (simp add: inv_length)
  from inv_shard [OF v this] assms(3) show ?thesis
    by (simp add: shard_inv_def shard_ok_def)
qed

subsection \<open>A process that has panicked takes no step\<close>

lemma crashed_step: "crashed s \<Longrightarrow> step e s = None"
  by (cases e) simp_all

section \<open>The properties of the specification\<close>

text \<open>
  C1 (FIFO within a shard). In every state a run can reach from \<open>New\<close>, the packets inserted
  into the queue of shard \<open>i\<close>, in the order of their insertion, are: the packets handed to
  \<open>WritePackets\<close> by the loop of shard \<open>i\<close>, in the order they were handed over, followed by
  the batch in the making, the packets released by a shutdown, and the packets still
  queued. So the transmitted sequence is a prefix of the submitted one, and packets are
  only skipped when a shutdown released them.
\<close>

theorem fifo_within_shard:
  assumes "New n queueLen = Some s0" and "i < nat n"
  shows "pushed i (trace (exec es s0)) =
           transmitted i (trace (exec es s0)) @ batch (loops (exec es s0) ! i) @
           discarded i (trace (exec es s0)) @ queue (dispatchers (exec es s0) ! i)
       \<and> prefix (transmitted i (trace (exec es s0))) (pushed i (trace (exec es s0)))
       \<and> (discarded i (trace (exec es s0)) = [] \<or> pc (loops (exec es s0) ! i) = L_returned)"
proof -
  from assms(1) have "length (dispatchers s0) = nat n"
    by (auto simp: New_def split: if_splits)
  with assms(2) have i: "i < length (dispatchers (exec es s0))"
    by (simp add: length_exec)
  have "inv (exec es s0)"
    using assms(1) by (intro inv_exec inv_New)
  from inv_shard [OF this i] have
    eq: "pushed i (trace (exec es s0)) =
           transmitted i (trace (exec es s0)) @ batch (loops (exec es s0) ! i) @
           discarded i (trace (exec es s0)) @ queue (dispatchers (exec es s0) ! i)"
    and d: "discarded i (trace (exec es s0)) = [] \<or> pc (loops (exec es s0) ! i) = L_returned"
    by (simp_all add: shard_inv_def shard_ok_def)
  from eq have "prefix (transmitted i (trace (exec es s0))) (pushed i (trace (exec es s0)))"
    by (metis prefixI)
  with eq d show ?thesis by blast
qed

theorem fifo_within_shard_witness:
  "New 2 4 = Some (the (New 2 4)) \<and> (0::nat) < nat 2 \<and> (1::nat) < nat 2
   \<and> enabled_run two_shards (the (New 2 4))
   \<and> pushed 0 (trace (exec two_shards (the (New 2 4)))) =
       [\<lparr>ident = 1, Hash = 0\<rparr>, \<lparr>ident = 3, Hash = 2\<rparr>]
   \<and> transmitted 0 (trace (exec two_shards (the (New 2 4)))) =
       [\<lparr>ident = 1, Hash = 0\<rparr>, \<lparr>ident = 3, Hash = 2\<rparr>]
   \<and> transmitted 1 (trace (exec two_shards (the (New 2 4)))) = [\<lparr>ident = 2, Hash = 1\<rparr>]
   \<and> prefix (transmitted 0 (trace (exec two_shards (the (New 2 4)))))
       (pushed 0 (trace (exec two_shards (the (New 2 4)))))
   \<and> prefix (transmitted 1 (trace (exec two_shards (the (New 2 4)))))
       (pushed 1 (trace (exec two_shards (the (New 2 4)))))"
proof -
  have n: "New 2 4 = Some (the (New 2 4))"
    by (simp add: New_def)
  have e: "enabled_run two_shards (the (New 2 4))"
    by code_simp
  have p: "pushed 0 (trace (exec two_shards (the (New 2 4)))) =
       [\<lparr>ident = 1, Hash = 0\<rparr>, \<lparr>ident = 3, Hash = 2\<rparr>]"
    by code_simp
  have t: "transmitted 0 (trace (exec two_shards (the (New 2 4)))) =
       [\<lparr>ident = 1, Hash = 0\<rparr>, \<lparr>ident = 3, Hash = 2\<rparr>]"
    "transmitted 1 (trace (exec two_shards (the (New 2 4)))) = [\<lparr>ident = 2, Hash = 1\<rparr>]"
    by code_simp+
  from fifo_within_shard [OF n, of 0 two_shards] fifo_within_shard [OF n, of 1 two_shards] n e p t
  show ?thesis
    by simp
qed

text \<open>
  C8 (shard choice). On a discipline with at least one shard, line 140 never panics and
  selects the shard with index \<open>Hash\<close> modulo the number of shards, which is within bounds; a
  packet whose hash is 0 goes to shard 0. When that shard has room, the packet is appended
  to the queue of exactly that shard.
\<close>

theorem WritePacket_shard_choice:
  assumes "1 \<le> length (dispatchers s)"
  shows "dispatcher_index pkt (length (dispatchers s)) = Some (unat (Hash pkt) mod length (dispatchers s))
       \<and> unat (Hash pkt) mod length (dispatchers s) < length (dispatchers s)
       \<and> (Hash pkt = 0 \<longrightarrow> dispatcher_index pkt (length (dispatchers s)) = Some 0)
       \<and> (used (dispatchers s ! (unat (Hash pkt) mod length (dispatchers s)))
            < limit (dispatchers s ! (unat (Hash pkt) mod length (dispatchers s))) \<longrightarrow>
          trace (WritePacket_locked t pkt s) =
            trace s @ [PushBack (unat (Hash pkt) mod length (dispatchers s)) pkt]
          \<and> threads (WritePacket_locked t pkt s) t = T_wake (unat (Hash pkt) mod length (dispatchers s))
          \<and> queue (dispatchers (WritePacket_locked t pkt s) ! (unat (Hash pkt) mod length (dispatchers s))) =
              queue (dispatchers s ! (unat (Hash pkt) mod length (dispatchers s))) @ [pkt])"
proof -
  from assms have "0 < length (dispatchers s)" by (cases "dispatchers s") auto
  then have "unat (Hash pkt) mod length (dispatchers s) < length (dispatchers s)"
    by (rule mod_less_divisor)
  then show ?thesis
    using dispatcher_index_mod [OF assms, of pkt]
    by (auto simp: WritePacket_locked_Some)
qed

theorem WritePacket_shard_choice_witness:
  "1 \<le> length (dispatchers (the (New 2 4)))
   \<and> dispatcher_index \<lparr>ident = 1, Hash = 5\<rparr> (length (dispatchers (the (New 2 4)))) = Some 1
   \<and> dispatcher_index \<lparr>ident = 2, Hash = 0\<rparr> (length (dispatchers (the (New 2 4)))) = Some 0
   \<and> queue (dispatchers (WritePacket_locked 0 \<lparr>ident = 1, Hash = 5\<rparr> (the (New 2 4))) ! 1) =
       [\<lparr>ident = 1, Hash = 5\<rparr>]
   \<and> queue (dispatchers (WritePacket_locked 0 \<lparr>ident = 2, Hash = 0\<rparr> (the (New 2 4))) ! 0) =
       [\<lparr>ident = 2, Hash = 0\<rparr>]"
proof -
  have l: "1 \<le> length (dispatchers (the (New 2 4)))"
    by (simp add: New_def)
  have u: "used (dispatchers (the (New 2 4)) ! 1) < limit (dispatchers (the (New 2 4)) ! 1)"
     "used (dispatchers (the (New 2 4)) ! 0) < limit (dispatchers (the (New 2 4)) ! 0)"
    by (simp_all add: New_def New_dispatcher_def numeral_2_eq_2)
  have q: "queue (dispatchers (the (New 2 4)) ! 1) = []" "queue (dispatchers (the (New 2 4)) ! 0) = []"
    by (simp_all add: New_def New_dispatcher_def numeral_2_eq_2)
  have n: "length (dispatchers (the (New 2 4))) = 2"
    by (simp add: New_def)
  from WritePacket_shard_choice [OF l, of "\<lparr>ident = 1, Hash = 5\<rparr>" 0]
       WritePacket_shard_choice [OF l, of "\<lparr>ident = 2, Hash = 0\<rparr>" 0] l u q
  show ?thesis
    by (simp add: n)
qed

text \<open>
  C3 (a full shard rejects). When the shard that a packet is routed to has \<open>used\<close> equal to
  \<open>limit\<close>, the locked section of \<open>WritePacket\<close> changes nothing: the call returns
  \<open>ErrNoBufferSpace\<close>, and the dispatchers (queues and counters), the reference counters and
  everything else but the record of the return are as before. This holds for the locked
  section wherever it is scheduled, and for a whole call that runs without interruption.
\<close>

theorem WritePacket_full:
  assumes "\<not> crashed s"
    and "dispatcher_index pkt (length (dispatchers s)) = Some i"
    and "used (dispatchers s ! i) = limit (dispatchers s ! i)"
  shows "(threads s t = T_enqueue pkt \<longrightarrow>
            step (Resume t) s =
              Some (s\<lparr>threads := (threads s)(t := T_idle),
                      trace := trace s @ [Returns t (Some ErrNoBufferSpace)]\<rparr>))
       \<and> (threads s t = T_idle \<and> closed s \<noteq> qDiscClosed \<longrightarrow>
            exec [CallWritePacket t pkt, Resume t] s =
              s\<lparr>trace := trace s @ [Returns t (Some ErrNoBufferSpace)]\<rparr>)"
  using assms
  by (auto simp: WritePacket_locked_Some WritePacket_load_def fire_def threads_idle_upd)

theorem WritePacket_full_witness:
  "\<not> crashed full_shard
   \<and> dispatcher_index \<lparr>ident = 2, Hash = 0\<rparr> (length (dispatchers full_shard)) = Some 0
   \<and> used (dispatchers full_shard ! 0) = limit (dispatchers full_shard ! 0)
   \<and> threads full_shard 0 = T_idle \<and> closed full_shard \<noteq> qDiscClosed
   \<and> exec [CallWritePacket 0 \<lparr>ident = 2, Hash = 0\<rparr>, Resume 0] full_shard =
        full_shard\<lparr>trace := trace full_shard @ [Returns 0 (Some ErrNoBufferSpace)]\<rparr>
   \<and> threads (fire (CallWritePacket 0 \<lparr>ident = 2, Hash = 0\<rparr>) full_shard) 0 =
        T_enqueue \<lparr>ident = 2, Hash = 0\<rparr>
   \<and> queue (dispatchers
        (the (step (Resume 0) (fire (CallWritePacket 0 \<lparr>ident = 2, Hash = 0\<rparr>) full_shard))) ! 0) =
        [\<lparr>ident = 1, Hash = 0\<rparr>]"
proof -
  have a: "\<not> crashed full_shard"
    "dispatcher_index \<lparr>ident = 2, Hash = 0\<rparr> (length (dispatchers full_shard)) = Some 0"
    "used (dispatchers full_shard ! 0) = limit (dispatchers full_shard ! 0)"
    "threads full_shard 0 = T_idle" "closed full_shard \<noteq> qDiscClosed"
    "queue (dispatchers full_shard ! 0) = [\<lparr>ident = 1, Hash = 0\<rparr>]"
    by (simp_all add: full_shard_def fire_def New_def New_dispatcher_def WritePacket_load_def
          WritePacket_locked_def WritePacket_wake_def enqueue_def dispatcher_index_def go_rem_def
          qDiscClosed_def Let_def)
  let ?s = "fire (CallWritePacket 0 \<lparr>ident = 2, Hash = 0\<rparr>) full_shard"
  have b: "?s = full_shard\<lparr>threads := (threads full_shard)(0 := T_enqueue \<lparr>ident = 2, Hash = 0\<rparr>)\<rparr>"
    using a by (simp add: fire_def WritePacket_load_def)
  have c: "\<not> crashed ?s"
    "dispatcher_index \<lparr>ident = 2, Hash = 0\<rparr> (length (dispatchers ?s)) = Some 0"
    "used (dispatchers ?s ! 0) = limit (dispatchers ?s ! 0)"
    "threads ?s 0 = T_enqueue \<lparr>ident = 2, Hash = 0\<rparr>"
    "queue (dispatchers ?s ! 0) = [\<lparr>ident = 1, Hash = 0\<rparr>]"
    using a by (simp_all add: b)
  from WritePacket_full [OF a(1,2,3), of 0] WritePacket_full [OF c(1,2,3), of 0] a c
  show ?thesis
    by simp
qed

text \<open>
  C4 (rejection after Close). From the moment a call of \<open>Close\<close> has stored the closed flag,
  whatever happens afterwards, the flag stays set, and every call of \<open>WritePacket\<close> that
  starts returns \<open>ErrClosedForSend\<close> at line 138 and leaves the state as it is apart from the
  record of the return. Line 137 does not read the shards or the reference counters either:
  its effect is the same whatever they hold.
\<close>

theorem WritePacket_after_Close:
  assumes "\<not> crashed s" and "threads s c = T_idle"
  shows "closed (exec es (fire (CallClose c) s)) = qDiscClosed
       \<and> (\<not> crashed (exec es (fire (CallClose c) s))
            \<and> threads (exec es (fire (CallClose c) s)) t = T_idle \<longrightarrow>
          step (CallWritePacket t pkt) (exec es (fire (CallClose c) s)) =
            Some ((exec es (fire (CallClose c) s))
                    \<lparr>trace := trace (exec es (fire (CallClose c) s)) @
                       [Returns t (Some ErrClosedForSend)]\<rparr>))
       \<and> WritePacket_load t pkt ((exec es (fire (CallClose c) s))\<lparr>dispatchers := ds, refs := rc\<rparr>) =
            (WritePacket_load t pkt (exec es (fire (CallClose c) s)))\<lparr>dispatchers := ds, refs := rc\<rparr>"
proof -
  have "closed (fire (CallClose c) s) = qDiscClosed"
    using assms by (simp add: fire_def Close_store_def)
  then have "closed (exec es (fire (CallClose c) s)) = qDiscClosed"
    by (rule closed_exec)
  then show ?thesis
    by (simp add: WritePacket_load_def)
qed

theorem WritePacket_after_Close_witness:
  "\<not> crashed (the (New 1 4)) \<and> threads (the (New 1 4)) 1 = T_idle
   \<and> \<not> crashed (exec [Resume 1] (fire (CallClose 1) (the (New 1 4))))
   \<and> threads (exec [Resume 1] (fire (CallClose 1) (the (New 1 4)))) 0 = T_idle
   \<and> trace (the (step (CallWritePacket 0 \<lparr>ident = 1, Hash = 0\<rparr>)
        (exec [Resume 1] (fire (CallClose 1) (the (New 1 4)))))) = [Returns 0 (Some ErrClosedForSend)]
   \<and> dispatchers (the (step (CallWritePacket 0 \<lparr>ident = 1, Hash = 0\<rparr>)
        (exec [Resume 1] (fire (CallClose 1) (the (New 1 4)))))) =
      dispatchers (exec [Resume 1] (fire (CallClose 1) (the (New 1 4))))"
proof -
  have a: "\<not> crashed (the (New 1 4))" "threads (the (New 1 4)) 1 = T_idle"
    by (simp_all add: New_def)
  have b: "\<not> crashed (exec [Resume 1] (fire (CallClose 1) (the (New 1 4))))"
    "threads (exec [Resume 1] (fire (CallClose 1) (the (New 1 4)))) 0 = T_idle"
    "trace (exec [Resume 1] (fire (CallClose 1) (the (New 1 4)))) = []"
    by (simp_all add: New_def fire_def Close_store_def Close_assert_def)
  from WritePacket_after_Close [OF a, of "[Resume 1]" 0 "\<lparr>ident = 1, Hash = 0\<rparr>"] a b
  show ?thesis
    by simp
qed

text \<open>
  C6 (batch bound). In every run from \<open>New\<close>, whatever the interleaving, every call of
  \<open>WritePackets\<close> that a dispatch loop has made passed at most 32 packets, and whenever a loop
  is about to make such a call its batch holds at most 32 packets.
\<close>

theorem batch_bound:
  assumes "New n queueLen = Some s0"
  shows "(WritePackets i b \<in> set (trace (exec es s0)) \<longrightarrow> length b \<le> 32)
       \<and> (i < length (loops (exec es s0)) \<and> pc (loops (exec es s0) ! i) = L_write \<longrightarrow>
            length (batch (loops (exec es s0) ! i)) \<le> 32)"
  using batch_ok_trace [OF assms, of i b es] batch_ok_pending [OF assms, of i es]
  by (auto simp: BatchSize_def)

theorem batch_bound_witness:
  "New 1 64 = Some (the (New 1 64))
   \<and> enabled_run burst (the (New 1 64))
   \<and> WritePackets 0 (map (\<lambda>k. \<lparr>ident = k, Hash = 0\<rparr>) [0..<32]) \<in> set (trace (exec burst (the (New 1 64))))
   \<and> WritePackets 0 [\<lparr>ident = 32, Hash = 0\<rparr>] \<in> set (trace (exec burst (the (New 1 64))))
   \<and> length (map (\<lambda>k. \<lparr>ident = k, Hash = 0 :: 32 word\<rparr>) [0..<32]) \<le> 32
   \<and> 0 < length (loops (exec (take 102 burst) (the (New 1 64))))
   \<and> pc (loops (exec (take 102 burst) (the (New 1 64))) ! 0) = L_write
   \<and> length (batch (loops (exec (take 102 burst) (the (New 1 64))) ! 0)) = 32"
proof -
  have n: "New 1 64 = Some (the (New 1 64))"
    by (simp add: New_def)
  have m: "enabled_run burst (the (New 1 64))"
    "WritePackets 0 (map (\<lambda>k. \<lparr>ident = k, Hash = 0\<rparr>) [0..<32]) \<in> set (trace (exec burst (the (New 1 64))))"
    "WritePackets 0 [\<lparr>ident = 32, Hash = 0\<rparr>] \<in> set (trace (exec burst (the (New 1 64))))"
    by code_simp+
  have w: "0 < length (loops (exec (take 102 burst) (the (New 1 64))))"
    "pc (loops (exec (take 102 burst) (the (New 1 64))) ! 0) = L_write"
    "length (batch (loops (exec (take 102 burst) (the (New 1 64))) ! 0)) = 32"
    by code_simp+
  from batch_bound [OF n, of 0 "map (\<lambda>k. \<lparr>ident = k, Hash = 0\<rparr>) [0..<32]" burst]
       batch_bound [OF n, of 0 "[]" "take 102 burst"] n m w
  show ?thesis
    by simp
qed

text \<open>
  C10 (no empty batch). In every run from \<open>New\<close>, every call of \<open>WritePackets\<close> that a
  dispatch loop has made passed at least one packet, and whenever a loop is about to make
  such a call its batch is not empty.
\<close>

theorem batch_nonempty:
  assumes "New n queueLen = Some s0"
  shows "(WritePackets i b \<in> set (trace (exec es s0)) \<longrightarrow> b \<noteq> [])
       \<and> (i < length (loops (exec es s0)) \<and> pc (loops (exec es s0) ! i) = L_write \<longrightarrow>
            batch (loops (exec es s0) ! i) \<noteq> [])"
  using batch_ok_trace [OF assms, of i b es] batch_ok_pending [OF assms, of i es]
  by auto

theorem batch_nonempty_witness:
  "New 1 4 = Some (the (New 1 4))
   \<and> WritePackets 0 [\<lparr>ident = 1, Hash = 0\<rparr>, \<lparr>ident = 2, Hash = 0\<rparr>]
       \<in> set (trace (exec two_packets (the (New 1 4))))
   \<and> [\<lparr>ident = 1, Hash = 0\<rparr>, \<lparr>ident = 2, Hash = 0\<rparr>] \<noteq> []
   \<and> 0 < length (loops (exec (take 9 two_packets) (the (New 1 4))))
   \<and> pc (loops (exec (take 9 two_packets) (the (New 1 4))) ! 0) = L_write
   \<and> batch (loops (exec (take 9 two_packets) (the (New 1 4))) ! 0) \<noteq> []"
proof -
  have n: "New 1 4 = Some (the (New 1 4))"
    by (simp add: New_def)
  have m: "WritePackets 0 [\<lparr>ident = 1, Hash = 0\<rparr>, \<lparr>ident = 2, Hash = 0\<rparr>]
       \<in> set (trace (exec two_packets (the (New 1 4))))"
    by code_simp
  have w: "0 < length (loops (exec (take 9 two_packets) (the (New 1 4))))"
    "pc (loops (exec (take 9 two_packets) (the (New 1 4))) ! 0) = L_write"
    by code_simp+
  from batch_nonempty [OF n, of 0 "[\<lparr>ident = 1, Hash = 0\<rparr>, \<lparr>ident = 2, Hash = 0\<rparr>]" two_packets]
       batch_nonempty [OF n, of 0 "[]" "take 9 two_packets"] n m w
  show ?thesis
    by simp
qed

text \<open>
  C7 (counter and capacity). As stated, with \<open>0 \<le> used \<le> limit\<close> at every instant, the
  property fails for a discipline made with a negative queue length: \<open>New\<close> does not check
  \<open>queueLen\<close>, so \<open>limit\<close> is negative while \<open>used\<close> is 0.
\<close>

theorem capacity_invariant_counterexample:
  "New 1 (- 1) = Some (the (New 1 (- 1)))
   \<and> used (dispatchers (the (New 1 (- 1))) ! 0) = 0
   \<and> limit (dispatchers (the (New 1 (- 1))) ! 0) = - 1
   \<and> \<not> (0 \<le> used (dispatchers (the (New 1 (- 1))) ! 0)
        \<and> used (dispatchers (the (New 1 (- 1))) ! 0) \<le> limit (dispatchers (the (New 1 (- 1))) ! 0))"
  by (simp add: New_def New_dispatcher_def)

text \<open>
  C7, amended. In every state that a run from \<open>New\<close> reaches between locked sections, for
  every shard, \<open>used\<close> is the length of the queue, \<open>0 \<le> used\<close>, and \<open>used\<close> is at most the
  larger of 0 and \<open>limit\<close>, where \<open>limit\<close> is the queue length given to \<open>New\<close>; so
  \<open>used \<le> limit\<close> whenever that queue length is not negative. As this holds after every
  step, every operation on the shard preserves it.
\<close>

theorem capacity_invariant:
  assumes "New n queueLen = Some s0" and "i < nat n"
  shows "used (dispatchers (exec es s0) ! i) = int (length (queue (dispatchers (exec es s0) ! i)))
       \<and> 0 \<le> used (dispatchers (exec es s0) ! i)
       \<and> used (dispatchers (exec es s0) ! i) \<le> max 0 (limit (dispatchers (exec es s0) ! i))
       \<and> limit (dispatchers (exec es s0) ! i) = queueLen
       \<and> (0 \<le> queueLen \<longrightarrow> used (dispatchers (exec es s0) ! i) \<le> limit (dispatchers (exec es s0) ! i))"
proof -
  from assms have l: "length (dispatchers s0) = nat n" and q: "limit (dispatchers s0 ! i) = queueLen"
    by (auto simp: New_def New_dispatcher_def split: if_splits)
  with assms(2) have i: "i < length (dispatchers (exec es s0))"
    by (simp add: length_exec)
  have "inv (exec es s0)"
    using assms(1) by (intro inv_exec inv_New)
  from inv_shard [OF this i] q show ?thesis
    by (auto simp: shard_inv_def shard_ok_def limit_exec)
qed

theorem capacity_invariant_witness:
  "New 1 4 = Some (the (New 1 4)) \<and> (0::nat) < nat 1 \<and> (0::int) \<le> 4
   \<and> used (dispatchers (exec (take 6 two_packets) (the (New 1 4))) ! 0) = 2
   \<and> length (queue (dispatchers (exec (take 6 two_packets) (the (New 1 4))) ! 0)) = 2
   \<and> used (dispatchers (exec (take 6 two_packets) (the (New 1 4))) ! 0)
       \<le> limit (dispatchers (exec (take 6 two_packets) (the (New 1 4))) ! 0)"
proof -
  have n: "New 1 4 = Some (the (New 1 4))"
    by (simp add: New_def)
  have u: "used (dispatchers (exec (take 6 two_packets) (the (New 1 4))) ! 0) = 2"
    by code_simp
  from capacity_invariant [OF n, of 0 "take 6 two_packets"] n u show ?thesis
    by simp
qed

text \<open>
  C5 (drain on shutdown). When the loop of shard \<open>i\<close> has fetched the close waker (it is at
  line 100), its next action can be taken and is the locked section of lines 100 to 108:
  every packet in the queue loses one reference, none of them is passed to \<open>WritePackets\<close>
  (the trace only grows by their releases), the queue is empty afterwards, and the loop has
  returned. From the moment the close waker was fetched, whatever happens, the loop hands
  no further packet to the transmitter and stays at line 100 or returned.
\<close>

theorem shutdown_drain:
  assumes "\<not> crashed s" and "length (loops s) = length (dispatchers s)"
    and "i < length (loops s)" and "pc (loops s ! i) = L_close"
  shows "switch_waker CloseWaker = L_close
       \<and> step (Loop i) s = Some (dispatchLoop_close i s)
       \<and> pc (loops (dispatchLoop_close i s) ! i) = L_returned
       \<and> queue (dispatchers (dispatchLoop_close i s) ! i) = []
       \<and> refs (dispatchLoop_close i s) p = refs s p - int (count_list (queue (dispatchers s ! i)) p)
       \<and> trace (dispatchLoop_close i s) = trace s @ map (Discard i) (queue (dispatchers s ! i))
       \<and> transmitted i (trace (exec es s)) = transmitted i (trace s)
       \<and> (pc (loops (exec es s) ! i) = L_close \<or> pc (loops (exec es s) ! i) = L_returned)"
proof -
  from assms(3,4) have "shutting s i"
    by (simp add: shutting_def)
  from shutting_exec [OF this, of es]
  have "transmitted i (trace (exec es s)) = transmitted i (trace s)"
    and "pc (loops (exec es s) ! i) = L_close \<or> pc (loops (exec es s) ! i) = L_returned"
    by (simp_all add: shutting_def)
  with assms show ?thesis
    by (simp add: dispatchLoop_close_eq List_DecRef_count)
qed

theorem shutdown_drain_witness:
  "\<not> crashed (exec close_with_backlog (the (New 1 4)))
   \<and> length (loops (exec close_with_backlog (the (New 1 4)))) =
       length (dispatchers (exec close_with_backlog (the (New 1 4))))
   \<and> 0 < length (loops (exec close_with_backlog (the (New 1 4))))
   \<and> pc (loops (exec close_with_backlog (the (New 1 4))) ! 0) = L_close
   \<and> queue (dispatchers (exec close_with_backlog (the (New 1 4))) ! 0) =
       [\<lparr>ident = 1, Hash = 0\<rparr>, \<lparr>ident = 2, Hash = 0\<rparr>, \<lparr>ident = 3, Hash = 0\<rparr>]
   \<and> refs (exec close_with_backlog (the (New 1 4))) \<lparr>ident = 2, Hash = 0\<rparr> = 1
   \<and> refs (dispatchLoop_close 0 (exec close_with_backlog (the (New 1 4)))) \<lparr>ident = 2, Hash = 0\<rparr> = 0
   \<and> queue (dispatchers (dispatchLoop_close 0 (exec close_with_backlog (the (New 1 4)))) ! 0) = []
   \<and> transmitted 0 (trace (exec [Loop 0, Resume 0, Resume 1, Resume 1]
        (exec close_with_backlog (the (New 1 4))))) = []"
proof -
  let ?s = "exec close_with_backlog (the (New 1 4))"
  have a: "\<not> crashed ?s" "length (loops ?s) = length (dispatchers ?s)" "0 < length (loops ?s)"
    "pc (loops ?s ! 0) = L_close"
    by code_simp+
  have b: "queue (dispatchers ?s ! 0) =
       [\<lparr>ident = 1, Hash = 0\<rparr>, \<lparr>ident = 2, Hash = 0\<rparr>, \<lparr>ident = 3, Hash = 0\<rparr>]"
    "refs ?s \<lparr>ident = 2, Hash = 0\<rparr> = 1" "transmitted 0 (trace ?s) = []"
    by code_simp+
  from shutdown_drain [OF a, of "\<lparr>ident = 2, Hash = 0\<rparr>" "[Loop 0, Resume 0, Resume 1, Resume 1]"] a b
  show ?thesis
    by simp
qed

text \<open>
  C9 (unknown waker). If \<open>Fetch\<close> returns a waker that is neither the new-packet waker nor
  the close waker of the shard, the switch of lines 97 to 111 takes its default branch and
  panics: the loop is at line 110, the process has died, and no goroutine takes another
  step; in a state whose sleeper knows such a waker, \<open>Fetch\<close> can return it. In every run
  from \<open>New\<close> the sleeper of a loop knows no other waker than the two added at lines 91 and
  92, so \<open>Fetch\<close> cannot return another one and no loop ever is at line 110.
\<close>

theorem unknown_waker_panics:
  "switch_waker (UnknownWaker k) = L_panic
   \<and> crashed (dispatchLoop_fetch i (UnknownWaker k) s)
   \<and> step e (dispatchLoop_fetch i (UnknownWaker k) s) = None
   \<and> (i < length (loops s) \<longrightarrow> pc (loops (dispatchLoop_fetch i (UnknownWaker k) s) ! i) = L_panic)
   \<and> (\<not> crashed s \<and> i < length (loops s) \<and> pc (loops s ! i) = L_fetch
        \<and> UnknownWaker k \<in> set (s_wakers (loops s ! i)) \<longrightarrow>
          step (Fetch i (UnknownWaker k)) s = Some (dispatchLoop_fetch i (UnknownWaker k) s))
   \<and> (New n queueLen = Some s0 \<and> j < length (loops (exec es s0)) \<longrightarrow>
        pc (loops (exec es s0) ! j) \<noteq> L_panic
        \<and> set (s_wakers (loops (exec es s0) ! j)) \<subseteq> {NewPacketWaker, CloseWaker}
        \<and> step (Fetch j (UnknownWaker k)) (exec es s0) = None)"
proof -
  have c: "crashed (dispatchLoop_fetch i (UnknownWaker k) s)"
    by (simp add: dispatchLoop_fetch_def)
  have 1: "step e (dispatchLoop_fetch i (UnknownWaker k) s) = None"
    using c by (rule crashed_step)
  have 2: "pc (loops (dispatchLoop_fetch i (UnknownWaker k) s) ! i) = L_panic" if "i < length (loops s)"
    using that by (simp add: dispatchLoop_fetch_def)
  have 3: "step (Fetch i (UnknownWaker k)) s = Some (dispatchLoop_fetch i (UnknownWaker k) s)"
    if "\<not> crashed s" "i < length (loops s)" "pc (loops s ! i) = L_fetch"
      "UnknownWaker k \<in> set (s_wakers (loops s ! i))"
    using that by (simp add: Fetch_returns_def)
  have 4: "pc (loops (exec es s0) ! j) \<noteq> L_panic
        \<and> set (s_wakers (loops (exec es s0) ! j)) \<subseteq> {NewPacketWaker, CloseWaker}
        \<and> step (Fetch j (UnknownWaker k)) (exec es s0) = None"
    if "New n queueLen = Some s0" "j < length (loops (exec es s0))"
  proof -
    have "sleepers_ok (exec es s0)"
      using that(1) by (intro sleepers_exec sleepers_New)
    with that(2) have "sleeper_ok (loops (exec es s0) ! j)"
      by (simp add: sleepers_ok_def)
    then show ?thesis
      by (auto simp: sleeper_ok_def Fetch_returns_def split: if_splits)
  qed
  from c 1 2 3 4 show ?thesis by simp
qed

theorem unknown_waker_panics_witness:
  "\<not> crashed unknown_registered \<and> 0 < length (loops unknown_registered)
   \<and> pc (loops unknown_registered ! 0) = L_fetch
   \<and> UnknownWaker 7 \<in> set (s_wakers (loops unknown_registered ! 0))
   \<and> crashed (the (step (Fetch 0 (UnknownWaker 7)) unknown_registered))
   \<and> pc (loops (the (step (Fetch 0 (UnknownWaker 7)) unknown_registered)) ! 0) = L_panic
   \<and> step (Loop 0) (the (step (Fetch 0 (UnknownWaker 7)) unknown_registered)) = None
   \<and> New 1 4 = Some (the (New 1 4))
   \<and> 0 < length (loops (exec (take 7 two_packets) (the (New 1 4))))
   \<and> pc (loops (exec (take 7 two_packets) (the (New 1 4))) ! 0) = L_fetch
   \<and> step (Fetch 0 (UnknownWaker 7)) (exec (take 7 two_packets) (the (New 1 4))) = None"
proof -
  have a: "\<not> crashed unknown_registered \<and> 0 < length (loops unknown_registered)
      \<and> pc (loops unknown_registered ! 0) = L_fetch
      \<and> UnknownWaker 7 \<in> set (s_wakers (loops unknown_registered ! 0))"
    by (simp add: unknown_registered_def New_def)
  have n: "New 1 4 = Some (the (New 1 4))"
    by (simp add: New_def)
  have l: "0 < length (loops (exec (take 7 two_packets) (the (New 1 4))))"
    "pc (loops (exec (take 7 two_packets) (the (New 1 4))) ! 0) = L_fetch"
    by code_simp+
  from unknown_waker_panics [of 7 0 unknown_registered "Loop 0" 1 4 "the (New 1 4)" 0 "take 7 two_packets"]
       a n l
  show ?thesis
    by simp
qed

text \<open>
  C2 (one acquire, one release), at the run \<open>close_race\<close>. The call of \<open>WritePacket\<close> returns
  success and has taken one reference of the packet, \<open>Close\<close> has returned, the loop has
  returned, and the packet sits in the queue. Its reference is never released: in every
  continuation of the run the counter stays 1.
\<close>

theorem WritePacket_racing_Close_leaks:
  "enabled_run close_race (the (New 1 4))
   \<and> trace (exec close_race (the (New 1 4))) =
       [PushBack 0 \<lparr>ident = 1, Hash = 0\<rparr>, Returns 0 None, CloseReturns 1]
   \<and> pc (loops (exec close_race (the (New 1 4))) ! 0) = L_returned
   \<and> queue (dispatchers (exec close_race (the (New 1 4))) ! 0) = [\<lparr>ident = 1, Hash = 0\<rparr>]
   \<and> refs (exec es (exec close_race (the (New 1 4)))) \<lparr>ident = 1, Hash = 0\<rparr> = 1"
proof -
  let ?s = "exec close_race (the (New 1 4))"
  have a: "enabled_run close_race (the (New 1 4))"
    "trace ?s = [PushBack 0 \<lparr>ident = 1, Hash = 0\<rparr>, Returns 0 None, CloseReturns 1]"
    "pc (loops ?s ! 0) = L_returned"
    "queue (dispatchers ?s ! 0) = [\<lparr>ident = 1, Hash = 0\<rparr>]"
    "refs ?s \<lparr>ident = 1, Hash = 0\<rparr> = 1"
    by code_simp+
  have b: "wg_zero ?s" "closed ?s = qDiscClosed"
    by code_simp+
  have c: "threads ?s = (\<lambda>t. T_idle)"
    by (simp add: close_race_def fire_def New_def New_dispatcher_def New_loop_def
          WritePacket_load_def WritePacket_locked_def WritePacket_wake_def Close_store_def
          Close_assert_def Close_return_def dispatchLoop_fetch_def dispatchLoop_close_eq
          dispatchLoop_start_def AddWaker_def Fetch_returns_def wg_zero_def enqueue_def
          dispatcher_index_def go_rem_def qDiscClosed_def Let_def)
       (auto simp: fun_eq_iff)
  from b c have "all_done ?s"
    by (simp add: all_done_def)
  from all_done_exec [OF this, of es] a show ?thesis
    by simp
qed

end
